theory Spec2Isabelle
  imports Main "HOL-Library.Sublist" "HOL-Library.Word"
begin

section \<open>JavaScript values\<close>

text \<open>
  The values that reach \<open>index.js\<close>. \<open>Readable n\<close> is an instance of Node's
  \<open>stream.Readable\<close> (with its \<open>_read\<close> function and its \<open>_readableState\<close> object);
  \<open>n\<close> is the identity of the object, so HOL equality on \<open>Readable\<close> values is JavaScript's
  \<open>===\<close>. \<open>Object fs\<close> is a plain object holding the data properties \<open>fs\<close> (no methods),
  \<open>Array vs\<close> an array. Numbers are restricted to the 32-bit integers, each of which is a
  JavaScript number: \<open>Number w\<close> is the number \<open>sint w\<close>.

  The property names of the model are the ones the source reads or writes
  (\<open>maxListeners\<close>, \<open>objectMode\<close>, \<open>_read\<close>, \<open>_readableState\<close>), the stream option
  \<open>readable\<close>, and any number of names \<open>K_other n\<close> that neither the source nor Node's
  stream constructors read.
\<close>

datatype key =
    K_maxListeners
  | K_objectMode
  | K_readable
  | K_read
  | K_readableState
  | K_other nat

datatype jsval =
    Undefined
  | Null
  | Boolean bool
  | Number "32 word"
  | Array "jsval list"
  | Object "(key \<times> jsval) list"
  | Readable nat

type_synonym props = "(key \<times> jsval) list"

text \<open>What the source throws: \<open>new Error(msg)\<close>, and the engine's own \<open>TypeError\<close>
  (a call of a method the value does not have) and the \<open>RangeError\<close> of
  \<open>setMaxListeners\<close> for a negative number.\<close>

datatype error = Error string | TypeError | RangeError

text \<open>A method either returns \<open>this\<close> or \<open>undefined\<close>, or throws.\<close>

datatype retval = This | RetUndefined

datatype outcome = Return retval | Throw error

text \<open>\<open>x || y\<close> takes \<open>y\<close> when \<open>x\<close> is falsy.\<close>

fun truthy :: "jsval \<Rightarrow> bool" where
  "truthy Undefined = False"
| "truthy Null = False"
| "truthy (Boolean b) = b"
| "truthy (Number w) = (w \<noteq> 0)"
| "truthy (Array vs) = True"
| "truthy (Object fs) = True"
| "truthy (Readable n) = True"

text \<open>The unary \<open>+\<close>: the number a value converts to, \<open>None\<close> for \<open>NaN\<close>. An array
  converts through its string: the empty array to \<open>0\<close>, a one-element array as its element's
  string does, a longer one (its string has a comma) to \<open>NaN\<close>.\<close>

fun to_number :: "jsval \<Rightarrow> int option" where
  "to_number Undefined = None"
| "to_number Null = Some 0"
| "to_number (Boolean b) = Some (if b then 1 else 0)"
| "to_number (Number w) = Some (sint w)"
| "to_number (Object fs) = None"
| "to_number (Readable n) = None"
| "to_number (Array []) = Some 0"
| "to_number (Array [Undefined]) = Some 0"
| "to_number (Array [Null]) = Some 0"
| "to_number (Array [Boolean b]) = None"
| "to_number (Array [Number w]) = Some (sint w)"
| "to_number (Array [Array vs]) = to_number (Array vs)"
| "to_number (Array [Object fs]) = None"
| "to_number (Array [Readable n]) = None"
| "to_number (Array (v # w # vs)) = None"

text \<open>Reading and writing a named data property.\<close>

definition get_prop :: "props \<Rightarrow> key \<Rightarrow> jsval" where
  "get_prop fs k = (case map_of fs k of None \<Rightarrow> Undefined | Some v \<Rightarrow> v)"

fun set_prop :: "key \<Rightarrow> jsval \<Rightarrow> props \<Rightarrow> props" where
  "set_prop k v [] = [(k, v)]"
| "set_prop k v ((k', v') # fs) =
     (if k' = k then (k, v) # fs else (k', v') # set_prop k v fs)"

text \<open>The named data properties of a value used as an options object. An array, a number
  and a boolean have none of the names of the model. Nor has a stream: the streams of the
  model are live ones, whose \<open>readable\<close> property is not \<open>false\<close>.\<close>

fun own_props :: "jsval \<Rightarrow> props" where
  "own_props (Object fs) = fs"
| "own_props v = []"

section \<open>The helpers of index.js\<close>

text \<open>\<open>Object.prototype.toString.call(arg) === '[object Object]'\<close>: plain objects and
  class instances, here the streams.\<close>

fun isObject :: "jsval \<Rightarrow> bool" where
  "isObject (Object fs) = True"
| "isObject (Readable n) = True"
| "isObject v = False"

fun isArray :: "jsval \<Rightarrow> bool" where
  "isArray (Array vs) = True"
| "isArray v = False"

fun instanceof_Readable :: "jsval \<Rightarrow> bool" where
  "instanceof_Readable (Readable n) = True"
| "instanceof_Readable v = False"

datatype jstype = TUndefined | TObject | TFunction | TBoolean | TNumber

fun typeof :: "jsval \<Rightarrow> jstype" where
  "typeof Undefined = TUndefined"
| "typeof Null = TObject"
| "typeof (Boolean b) = TBoolean"
| "typeof (Number n) = TNumber"
| "typeof (Array vs) = TObject"
| "typeof (Object fs) = TObject"
| "typeof (Readable n) = TObject"

text \<open>\<open>typeof arg._read\<close> and \<open>typeof arg._readableState\<close>, for an \<open>arg\<close> that is an
  object (the \<open>&&\<close> of the source reaches them only after \<open>instanceof\<close> held).\<close>

fun typeof_read :: "jsval \<Rightarrow> jstype" where
  "typeof_read (Readable n) = TFunction"
| "typeof_read (Object fs) = typeof (get_prop fs K_read)"
| "typeof_read v = TUndefined"

fun typeof_readableState :: "jsval \<Rightarrow> jstype" where
  "typeof_readableState (Readable n) = TObject"
| "typeof_readableState (Object fs) = typeof (get_prop fs K_readableState)"
| "typeof_readableState v = TUndefined"

definition isReadableStream :: "jsval \<Rightarrow> bool" where
  "isReadableStream arg =
     (instanceof_Readable arg \<and> typeof_read arg = TFunction
      \<and> typeof_readableState arg = TObject)"

text \<open>Whether \<open>source.unpipe\<close> is a function: the streams inherit it from
  \<open>stream.Readable\<close>; no other value of the model has it.\<close>

fun has_unpipe :: "jsval \<Rightarrow> bool" where
  "has_unpipe (Readable n) = True"
| "has_unpipe v = False"

section \<open>The state of a Concat stream\<close>

text \<open>
  The events of the Concat stream (the sink) that the model follows: \<open>End\<close> is the
  \<open>'end'\<close> that Node emits once an ended sink has been read to its end, \<open>Close\<close> is
  \<open>'close'\<close> (\<open>this.emit('close')\<close> of the source, or Node's own when it destroys the
  stream), \<open>Pipe\<close> and \<open>Unpipe\<close> are what Node emits on the destination when a source is
  piped into it and unpiped from it.
\<close>

datatype event = End | Close | Pipe jsval | Unpipe jsval

text \<open>The callbacks handed to \<open>setImmediate\<close>: that of \<open>add\<close> and that of \<open>close\<close>.\<close>

datatype task = PipeTask jsval | CloseTask

text \<open>
  \<open>closed\<close> and \<open>sources\<close> are the fields \<open>_closed\<close> and \<open>_sources\<close>. The rest is the part
  of Node's state that the source reads or writes: the options given to \<open>PassThrough\<close>, the
  listener limit, the \<open>readable\<close> property, whether \<open>end()\<close> has taken effect on the
  writable side (\<open>ending\<close>), whether \<open>'end'\<close> has been emitted, whether Node has destroyed
  the stream, whether the stream is paused, the events emitted so far, the sources piped into
  this stream (one entry per pipe), the sources carrying a one-shot \<open>'end'\<close> listener of
  this stream, and the pending \<open>setImmediate\<close> callbacks.
\<close>

record concat =
  closed :: bool
  sources :: "jsval list"
  options :: props
  maxListeners :: int
  readable :: bool
  ending :: bool
  end_emitted :: bool
  destroyed :: bool
  paused :: bool
  events :: "event list"
  piped :: "jsval list"
  end_listeners :: "jsval list"
  immediates :: "task list"

definition defaultOptions :: props where
  "defaultOptions = [(K_objectMode, Boolean True)]"

text \<open>\<open>Object.assign(target, source)\<close> on the data properties.\<close>

fun assign :: "props \<Rightarrow> props \<Rightarrow> props" where
  "assign target [] = target"
| "assign target ((k, v) # src) = assign (set_prop k v target) src"

text \<open>\<open>this.end()\<close>: the first call ends the writable side of the stream, a later call
  does nothing. The call emits no \<open>'end'\<close>: that is Node's, later, once the stream has been
  read to its end (\<open>node_emit_end\<close> below).\<close>

definition sink_end :: "concat \<Rightarrow> concat" where
  "sink_end s = (if ending s then s else s\<lparr>ending := True\<rparr>)"

section \<open>The methods\<close>

text \<open>
  \<open>Concat.prototype.add\<close>. The \<open>forEach\<close> over an array is \<open>add_each\<close>: an exception
  thrown for one element leaves the loop, and what was done before it stays done.
\<close>

fun add :: "concat \<Rightarrow> jsval \<Rightarrow> outcome \<times> concat"
  and add_each :: "concat \<Rightarrow> jsval list \<Rightarrow> outcome \<times> concat" where
  "add s source =
     (if closed s = True then (Throw (Error ''Stream is closed''), s)
      else case source of
        Array items \<Rightarrow>
          (case add_each s items of
             (Throw e, s') \<Rightarrow> (Throw e, s')
           | (Return r, s') \<Rightarrow> (Return This, s'))
      | _ \<Rightarrow>
          if \<not> isReadableStream source then (Throw (Error ''Invalid readable stream''), s)
          else (Return This,
                s\<lparr>sources := sources s @ [source],
                  end_listeners := end_listeners s @ [source],
                  immediates := immediates s @ [PipeTask source]\<rparr>))"
| "add_each s [] = (Return RetUndefined, s)"
| "add_each s (item # items) =
     (case add s item of
        (Throw e, s') \<Rightarrow> (Throw e, s')
      | (Return r, s') \<Rightarrow> add_each s' items)"

text \<open>
  \<open>Concat.prototype.remove\<close>. \<open>source.unpipe(this)\<close> is a \<open>TypeError\<close> for a value without
  that method. For a stream piped into this one, Node drops one pipe and emits \<open>'unpipe'\<close> on
  this stream, whose listener (\<open>this.on('unpipe', this.remove.bind(this))\<close>, installed by the
  constructor) calls \<open>remove\<close> with the same source before \<open>unpipe\<close> returns; for a stream
  that is not piped into this one \<open>unpipe\<close> does nothing.
\<close>

function remove :: "concat \<Rightarrow> jsval \<Rightarrow> outcome \<times> concat" where
  "remove s source =
     (if \<not> has_unpipe source then (Throw TypeError, s)
      else
        case (if source \<in> set (piped s)
              then remove (s\<lparr>piped := remove1 source (piped s),
                             events := events s @ [Unpipe source]\<rparr>) source
              else (Return This, s)) of
          (Throw e, s1) \<Rightarrow> (Throw e, s1)
        | (Return r, s1) \<Rightarrow>
            let s2 = s1\<lparr>sources := filter (\<lambda>item. item \<noteq> source) (sources s1)\<rparr>;
                s3 = (if length (sources s2) = 0 \<and> readable s2 then sink_end s2 else s2)
            in (Return This, s3))"
  by pat_completeness auto
termination
  by (relation "measure (\<lambda>(s, source). length (piped s))")
    (auto simp: length_remove1 dest: length_pos_if_in_set)

declare remove.simps [simp del]

text \<open>\<open>Concat.prototype.clear\<close>: \<open>forEach\<close> runs over the array that \<open>_sources\<close> held when
  the loop began; \<open>remove\<close> replaces \<open>_sources\<close> by a new array and leaves that one intact.\<close>

fun remove_each :: "concat \<Rightarrow> jsval list \<Rightarrow> outcome \<times> concat" where
  "remove_each s [] = (Return RetUndefined, s)"
| "remove_each s (source # rest) =
     (case remove s source of
        (Throw e, s') \<Rightarrow> (Throw e, s')
      | (Return r, s') \<Rightarrow> remove_each s' rest)"

definition clear :: "concat \<Rightarrow> outcome \<times> concat" where
  "clear s =
     (case remove_each s (sources s) of
        (Throw e, s') \<Rightarrow> (Throw e, s')
      | (Return r, s') \<Rightarrow> (Return This, s'))"

text \<open>\<open>Concat.prototype.close\<close>.\<close>

definition close :: "concat \<Rightarrow> outcome \<times> concat" where
  "close s =
     (if closed s then (Return RetUndefined, s)
      else
        case clear (s\<lparr>closed := True\<rparr>) of
          (Throw e, s') \<Rightarrow> (Throw e, s')
        | (Return r, s') \<Rightarrow>
            (Return This, s'\<lparr>immediates := immediates s' @ [CloseTask]\<rparr>))"

section \<open>The deferred callbacks\<close>

text \<open>
  \<open>source.unpipe(this)\<close> as the listeners call it that \<open>pipe\<close> installed on this stream:
  one pipe of the source is dropped and \<open>'unpipe'\<close> reaches \<open>remove\<close>, as inside
  \<open>remove\<close> itself. Only streams have pipes.
\<close>

definition unpipe :: "concat \<Rightarrow> jsval \<Rightarrow> concat" where
  "unpipe s source =
     (if has_unpipe source \<and> source \<in> set (piped s)
      then snd (remove (s\<lparr>piped := remove1 source (piped s),
                           events := events s @ [Unpipe source]\<rparr>) source)
      else s)"

text \<open>
  \<open>'close'\<close> on this stream. Every \<open>pipe\<close> into it has left a one-shot \<open>'close'\<close>
  listener that unpipes its source; they run in the order of the pipes that exist when the
  event is emitted.
\<close>

definition emit_close :: "concat \<Rightarrow> concat" where
  "emit_close s = foldl unpipe (s\<lparr>events := events s @ [Close]\<rparr>) (piped s)"

text \<open>
  The callback of \<open>add\<close> is \<open>source.pipe(this, {end : false})\<close>: one more pipe, and Node
  emits \<open>'pipe'\<close> on this stream. The callback of \<open>close\<close> is \<open>this.pause()\<close> and then
  \<open>this.emit('close')\<close>.
\<close>

fun run_task :: "concat \<Rightarrow> task \<Rightarrow> concat" where
  "run_task s (PipeTask source) =
     s\<lparr>piped := piped s @ [source], events := events s @ [Pipe source]\<rparr>"
| "run_task s CloseTask = emit_close (s\<lparr>paused := True\<rparr>)"

text \<open>
  One turn of the event loop: the pending \<open>setImmediate\<close> callbacks run in the order in
  which they were scheduled.
\<close>

definition turn :: "concat \<Rightarrow> concat" where
  "turn s = foldl run_task (s\<lparr>immediates := []\<rparr>) (immediates s)"

text \<open>
  What Node does to the sink on its own. Once \<open>end()\<close> has taken effect and the sink has
  been read to its end, Node emits \<open>'end'\<close>, once, and the \<open>readable\<close> property is false
  from then on. When Node destroys the stream (by itself after \<open>'end'\<close>, or because a client
  asks for it) the property is false as well and Node emits \<open>'close'\<close>. Whether and when
  the two steps happen is not decided by the source: a sink that nobody reads never emits
  \<open>'end'\<close>. They are steps that a sequence of calls may contain (\<open>exec\<close> below).
\<close>

definition node_emit_end :: "concat \<Rightarrow> concat" where
  "node_emit_end s =
     (if ending s \<and> \<not> end_emitted s \<and> \<not> destroyed s
      then s\<lparr>end_emitted := True, readable := False, events := events s @ [End]\<rparr>
      else s)"

definition node_destroy :: "concat \<Rightarrow> concat" where
  "node_destroy s =
     (if destroyed s then s else emit_close (s\<lparr>destroyed := True, readable := False\<rparr>))"

section \<open>The constructor\<close>

text \<open>
  \<open>new Concat(streams, options)\<close>. \<open>streams.forEach\<close> is a \<open>TypeError\<close> when \<open>streams\<close> is
  not an array; \<open>setMaxListeners\<close> is a \<open>RangeError\<close> for a negative number. A constructor
  that throws yields no object. \<open>PassThrough_init\<close> is the object after
  \<open>PassThrough.call(this, options)\<close>, \<open>setMaxListeners\<close> and the two assignments
  \<open>this._closed = false\<close> and \<open>this._sources = []\<close>; of the options of the model Node
  reads \<open>readable\<close>: the stream is readable unless the option is \<open>false\<close>.
\<close>

definition PassThrough_init :: "props \<Rightarrow> int \<Rightarrow> concat" where
  "PassThrough_init opts n =
     \<lparr>closed = False, sources = [], options = opts, maxListeners = n,
      readable = (get_prop opts K_readable \<noteq> Boolean False), ending = False,
      end_emitted = False, destroyed = False, paused = False, events = [],
      piped = [], end_listeners = [], immediates = []\<rparr>"

definition new_Concat :: "jsval \<Rightarrow> jsval \<Rightarrow> error + concat" where
  "new_Concat streams0 options0 =
     (let (streams1, options1) =
            (if isReadableStream streams0 then (Array [streams0], options0)
             else if isObject streams0 \<and> options0 = Undefined then (Array [], streams0)
             else (streams0, options0));
          streams = (if truthy streams1 then streams1 else Array []);
          opts = assign (own_props (if truthy options1 then options1 else Object []))
                   defaultOptions;
          n = (case to_number (get_prop opts K_maxListeners) of
                 None \<Rightarrow> 0 | Some m \<Rightarrow> m)
      in if n < 0 then Inl RangeError
         else
           case streams of
             Array items \<Rightarrow>
               (case add_each (PassThrough_init opts n) items of
                  (Throw e, s') \<Rightarrow> Inl e
                | (Return r, s') \<Rightarrow> Inr s')
           | _ \<Rightarrow> Inl TypeError)"

text \<open>\<open>Concat(streams, options)\<close>: \<open>is_new\<close> is \<open>this instanceof Concat\<close>, true under
  \<open>new\<close> and false in a plain call.\<close>

definition Concat :: "bool \<Rightarrow> jsval \<Rightarrow> jsval \<Rightarrow> error + concat" where
  "Concat is_new streams options' =
     (if \<not> is_new then new_Concat options' Undefined
      else new_Concat streams options')"

section \<open>Sequences of calls\<close>

text \<open>A client of the stream calls its methods one after the other, going on after an
  exception; between two calls the event loop may take a turn, and Node may emit \<open>'end'\<close>
  on the sink or destroy it.\<close>

datatype call =
    CallAdd jsval | CallRemove jsval | CallClear | CallClose | NextTurn
  | NodeEmitsEnd | NodeDestroys

fun exec :: "concat \<Rightarrow> call \<Rightarrow> outcome \<times> concat" where
  "exec s (CallAdd v) = add s v"
| "exec s (CallRemove v) = remove s v"
| "exec s CallClear = clear s"
| "exec s CallClose = close s"
| "exec s NextTurn = (Return RetUndefined, turn s)"
| "exec s NodeEmitsEnd = (Return RetUndefined, node_emit_end s)"
| "exec s NodeDestroys = (Return RetUndefined, node_destroy s)"

fun run :: "concat \<Rightarrow> call list \<Rightarrow> concat" where
  "run s [] = s"
| "run s (c # cs) = run (snd (exec s c)) cs"

text \<open>The stream that \<open>new Concat()\<close> returns.\<close>

definition empty_concat :: concat where
  "empty_concat = PassThrough_init defaultOptions 0"

section \<open>Notions used in the statements and in the proofs\<close>

text \<open>The event log has one \<open>End\<close> if \<open>'end'\<close> has been emitted and none otherwise.\<close>

definition end_logged :: "concat \<Rightarrow> bool" where
  "end_logged s = (count_list (events s) End = (if end_emitted s then 1 else 0))"

text \<open>What \<open>remove\<close> leaves behind for a stream \<open>x\<close>: every pipe of \<open>x\<close> is gone, with
  one \<open>Unpipe\<close> each, \<open>x\<close> is filtered out of the sources, and \<open>end()\<close> is called when
  no source is left and the sink is readable.\<close>

definition removed :: "concat \<Rightarrow> jsval \<Rightarrow> concat" where
  "removed s x =
     (let s1 = s\<lparr>piped := filter (\<lambda>y. y \<noteq> x) (piped s),
                  events := events s @ replicate (count_list (piped s) x) (Unpipe x)\<rparr>;
          s2 = s1\<lparr>sources := filter (\<lambda>item. item \<noteq> x) (sources s1)\<rparr>
      in if sources s2 = [] \<and> readable s2 then sink_end s2 else s2)"

text \<open>What \<open>add\<close> does for a list of streams: each is registered, gets its \<open>'end'\<close>
  listener and its deferred pipe.\<close>

definition registered :: "concat \<Rightarrow> jsval list \<Rightarrow> concat" where
  "registered s xs =
     s\<lparr>sources := sources s @ xs,
       end_listeners := end_listeners s @ xs,
       immediates := immediates s @ map PipeTask xs\<rparr>"

text \<open>The elements of a nested array, in the order in which \<open>add\<close> visits them.\<close>

fun leaves :: "jsval \<Rightarrow> jsval list" where
  "leaves (Array vs) = concat (map leaves vs)"
| "leaves v = [v]"

section \<open>Properties of remove and clear\<close>

lemmas empty_simps = empty_concat_def PassThrough_init_def defaultOptions_def get_prop_def

lemma isReadableStream_iff: "isReadableStream v \<longleftrightarrow> has_unpipe v"
  by (cases v) (simp_all add: isReadableStream_def)

lemma sink_end_idem: "ending s \<Longrightarrow> sink_end s = s"
  by (simp add: sink_end_def)

lemma remove_throws: "\<not> has_unpipe x \<Longrightarrow> remove s x = (Throw TypeError, s)"
  by (simp add: remove.simps)

lemma filter_neq_remove1: "filter (\<lambda>y. y \<noteq> x) (remove1 x xs) = filter (\<lambda>y. y \<noteq> x) xs"
  by (induction xs) auto

lemma filter_neq_absent: "x \<notin> set xs \<Longrightarrow> filter (\<lambda>y. y \<noteq> x) xs = xs"
  by (induction xs) auto

lemma count_list_remove1:
  "x \<in> set xs \<Longrightarrow> Suc (count_list (remove1 x xs) x) = count_list xs x"
  by (induction xs) auto

lemma removed_unpipe_step:
  assumes "x \<in> set (piped s)"
  shows "removed (s\<lparr>piped := remove1 x (piped s), events := events s @ [Unpipe x]\<rparr>) x
         = removed s x"
proof -
  have "[Unpipe x] @ replicate (count_list (remove1 x (piped s)) x) (Unpipe x)
        = replicate (count_list (piped s) x) (Unpipe x)"
    using count_list_remove1 [OF assms] by (metis append_Cons append_Nil replicate_Suc)
  then show ?thesis
    by (simp add: removed_def filter_neq_remove1)
qed

lemma removed_fixpoint:
  "(let s2 = (removed s x)\<lparr>sources := filter (\<lambda>item. item \<noteq> x) (sources (removed s x))\<rparr>
    in if length (sources s2) = 0 \<and> readable s2 then sink_end s2 else s2) = removed s x"
  by (simp add: removed_def Let_def sink_end_def)

lemma remove_removed: "has_unpipe x \<Longrightarrow> remove s x = (Return This, removed s x)"
proof (induction s x rule: remove.induct)
  case (1 s source)
  show ?case
  proof (cases "source \<in> set (piped s)")
    case True
    with 1 have "remove (s\<lparr>piped := remove1 source (piped s),
                             events := events s @ [Unpipe source]\<rparr>) source
                 = (Return This, removed s source)"
      by (simp add: removed_unpipe_step)
    then show ?thesis
      using True 1(2) removed_fixpoint [where s = s and x = source]
      by (subst remove.simps) (simp add: Let_def)
  next
    case False
    then have "filter (\<lambda>y. y \<noteq> source) (piped s) = piped s"
      by (rule filter_neq_absent)
    with False show ?thesis
      using 1(2) by (subst remove.simps) (simp add: removed_def Let_def)
  qed
qed


lemma remove_cases:
  "remove s x = (if has_unpipe x then (Return This, removed s x) else (Throw TypeError, s))"
  by (simp add: remove_removed remove_throws)

lemma count_End_unpipes: "count_list (replicate n (Unpipe x)) End = 0"
  by (induction n) auto

lemma removed_fields:
  "closed (removed s x) = closed s"
  "sources (removed s x) = filter (\<lambda>item. item \<noteq> x) (sources s)"
  "readable (removed s x) = readable s"
  "immediates (removed s x) = immediates s"
  "piped (removed s x) = filter (\<lambda>y. y \<noteq> x) (piped s)"
  "ending (removed s x)
     = (ending s \<or> (filter (\<lambda>item. item \<noteq> x) (sources s) = [] \<and> readable s))"
  "end_emitted (removed s x) = end_emitted s"
  "destroyed (removed s x) = destroyed s"
  by (simp_all add: removed_def Let_def sink_end_def)

lemma removed_events:
  "events (removed s x) = events s @ replicate (count_list (piped s) x) (Unpipe x)"
  by (simp add: removed_def Let_def sink_end_def)

lemma removed_count_End: "count_list (events (removed s x)) End = count_list (events s) End"
  by (simp add: removed_events count_End_unpipes)

lemma removed_end_logged: "end_logged (removed s x) = end_logged s"
  by (simp add: end_logged_def removed_count_End removed_fields)

lemma remove_closed: "closed (snd (remove s x)) = closed s"
  by (simp add: remove_cases removed_fields)

lemma remove_end_logged: "end_logged (snd (remove s x)) = end_logged s"
  by (simp add: remove_cases removed_end_logged)

lemma remove_count_End:
  "count_list (events (snd (remove s x))) End = count_list (events s) End"
  by (simp add: remove_cases removed_count_End)

lemma remove_readable: "readable (snd (remove s x)) = readable s"
  by (simp add: remove_cases removed_fields)

lemma remove_each_closed: "closed (snd (remove_each s xs)) = closed s"
  by (induction xs arbitrary: s) (simp_all add: remove_cases removed_fields)

lemma remove_each_end_logged: "end_logged (snd (remove_each s xs)) = end_logged s"
  by (induction xs arbitrary: s) (simp_all add: remove_cases removed_end_logged)

lemma remove_each_count_End:
  "count_list (events (snd (remove_each s xs))) End = count_list (events s) End"
  by (induction xs arbitrary: s) (simp_all add: remove_cases removed_count_End)

lemma remove_each_readable: "readable (snd (remove_each s xs)) = readable s"
  by (induction xs arbitrary: s) (simp_all add: remove_cases removed_fields)

lemma remove_each_end_emitted: "end_emitted (snd (remove_each s xs)) = end_emitted s"
  by (induction xs arbitrary: s) (simp_all add: remove_cases removed_fields)

lemma remove_each_destroyed: "destroyed (snd (remove_each s xs)) = destroyed s"
  by (induction xs arbitrary: s) (simp_all add: remove_cases removed_fields)

lemma remove_each_returns:
  "list_all has_unpipe xs \<Longrightarrow> fst (remove_each s xs) = Return RetUndefined"
  by (induction xs arbitrary: s) (simp_all add: remove_cases)

lemma remove_each_sources:
  "list_all has_unpipe xs \<Longrightarrow>
   sources (snd (remove_each s xs)) = filter (\<lambda>y. y \<notin> set xs) (sources s)"
proof (induction xs arbitrary: s)
  case Nil
  then show ?case by simp
next
  case (Cons x xs)
  then show ?case
    by (simp add: remove_cases removed_fields)
qed

lemma remove_each_distinct:
  "distinct (sources s) \<Longrightarrow> distinct (sources (snd (remove_each s xs)))"
  by (induction xs arbitrary: s) (simp_all add: remove_cases removed_fields)

lemma remove_each_ending_mono: "ending s \<Longrightarrow> ending (snd (remove_each s xs))"
  by (induction xs arbitrary: s) (simp_all add: remove_cases removed_fields)

lemma remove_each_ending:
  "list_all has_unpipe xs \<Longrightarrow> xs \<noteq> [] \<Longrightarrow> set (sources s) \<subseteq> set xs \<Longrightarrow>
   ending (snd (remove_each s xs)) = (ending s \<or> readable s)"
proof (induction xs arbitrary: s)
  case Nil
  then show ?case by simp
next
  case (Cons x xs)
  let ?s1 = "removed s x"
  have sub: "set (sources ?s1) \<subseteq> set xs"
    using Cons.prems(3) by (auto simp: removed_fields)
  show ?case
  proof (cases "xs = []")
    case True
    with sub have "filter (\<lambda>item. item \<noteq> x) (sources s) = []"
      by (simp add: removed_fields)
    then show ?thesis
      using True Cons.prems(1) by (simp add: remove_cases removed_fields)
  next
    case False
    with Cons.IH [OF _ _ sub] Cons.prems(1)
    have "ending (snd (remove_each ?s1 xs)) = (ending ?s1 \<or> readable ?s1)"
      by simp
    then show ?thesis
      using Cons.prems(1) by (auto simp: remove_cases removed_fields)
  qed
qed

section \<open>The claim on values without unpipe\<close>

text \<open>
  C10. \<open>remove\<close> does not validate its argument: its first statement calls
  \<open>source.unpipe\<close>, so for \<open>undefined\<close>, \<open>null\<close>, a plain object and every other value
  without that method it throws a \<open>TypeError\<close> and changes nothing, where \<open>add\<close> on an
  open stream rejects the same value with its own error.
\<close>
theorem remove_without_unpipe_throws:
  "remove s Undefined = (Throw TypeError, s)
   \<and> remove s Null = (Throw TypeError, s)
   \<and> remove s (Object fs) = (Throw TypeError, s)
   \<and> (\<not> has_unpipe v \<longrightarrow> remove s v = (Throw TypeError, s))
   \<and> (\<not> closed s \<and> \<not> isArray v \<and> \<not> has_unpipe v \<longrightarrow>
        add s v = (Throw (Error ''Invalid readable stream''), s))"
  by (cases v) (simp_all add: remove_cases isReadableStream_def)

theorem remove_without_unpipe_throws_witness:
  "\<not> has_unpipe (Number 7) \<and> \<not> closed empty_concat \<and> \<not> isArray (Number 7)
   \<and> remove empty_concat (Number 7) = (Throw TypeError, empty_concat)
   \<and> add empty_concat (Number 7) = (Throw (Error ''Invalid readable stream''), empty_concat)"
  using remove_without_unpipe_throws [where s = empty_concat and v = "Number 7"]
  by (simp add: empty_simps)



section \<open>Properties of add\<close>

lemma readable_cases: "isReadableStream v \<Longrightarrow> \<exists>n. v = Readable n"
  by (cases v) (simp_all add: isReadableStream_def)

lemma add_readable:
  "\<not> closed s \<Longrightarrow> isReadableStream x \<Longrightarrow> add s x = (Return This, registered s [x])"
  by (cases x) (simp_all add: registered_def isReadableStream_def)

lemma add_invalid:
  "\<not> closed s \<Longrightarrow> \<not> isArray bad \<Longrightarrow> \<not> isReadableStream bad \<Longrightarrow>
   add s bad = (Throw (Error ''Invalid readable stream''), s)"
  by (cases bad) simp_all

lemma registered_closed: "closed (registered s xs) = closed s"
  by (simp add: registered_def)

lemma registered_Cons: "registered (registered s [x]) xs = registered s (x # xs)"
  by (simp add: registered_def)

lemma add_each_readable:
  "\<not> closed s \<Longrightarrow> list_all isReadableStream xs \<Longrightarrow>
   add_each s (xs @ rest) = add_each (registered s xs) rest"
proof (induction xs arbitrary: s)
  case Nil
  then show ?case by (simp add: registered_def)
next
  case (Cons x xs)
  then show ?case
    by (simp add: add_readable registered_closed registered_Cons del: add.simps)
qed

subsection \<open>The claim on batches\<close>

text \<open>
  C3, as the code has it. \<open>add\<close> validates the items of a batch one by one, in order. An
  item that is neither an array nor a readable stream fails with
  \<open>Error('Invalid readable stream')\<close> and changes nothing itself; the exception leaves the
  \<open>forEach\<close>, so the call fails as a whole: the streams before the item stay registered and
  the items after it are not processed. A batch of readable streams is registered entirely.
\<close>
theorem add_batch_stops_at_invalid:
  assumes "\<not> closed s" and "list_all isReadableStream pre"
    and "\<not> isArray bad" and "\<not> isReadableStream bad"
  shows "add s bad = (Throw (Error ''Invalid readable stream''), s)
       \<and> add s (Array (pre @ bad # post))
           = (Throw (Error ''Invalid readable stream''), registered s pre)
       \<and> add s (Array pre) = (Return This, registered s pre)
       \<and> sources (registered s pre) = sources s @ pre"
proof -
  have c: "\<not> closed (registered s pre)" using assms(1) by (simp add: registered_closed)
  have 1: "add s bad = (Throw (Error ''Invalid readable stream''), s)"
    using assms(1,3,4) by (rule add_invalid)
  have "add_each s (pre @ bad # post) = add_each (registered s pre) (bad # post)"
    using assms(1,2) by (rule add_each_readable)
  also have "\<dots> = (Throw (Error ''Invalid readable stream''), registered s pre)"
    using add_invalid [OF c assms(3,4)] by (simp del: add.simps)
  finally have 2: "add s (Array (pre @ bad # post))
                   = (Throw (Error ''Invalid readable stream''), registered s pre)"
    using assms(1) by simp
  have "add_each s (pre @ []) = add_each (registered s pre) []"
    using assms(1,2) by (rule add_each_readable)
  then have 3: "add s (Array pre) = (Return This, registered s pre)"
    using assms(1) by simp
  show ?thesis using 1 2 3 by (simp add: registered_def)
qed

theorem add_batch_stops_at_invalid_witness:
  "\<not> closed empty_concat \<and> list_all isReadableStream [Readable 0]
   \<and> \<not> isArray Null \<and> \<not> isReadableStream Null
   \<and> add empty_concat (Array ([Readable 0] @ Null # [Readable 1]))
       = (Throw (Error ''Invalid readable stream''), registered empty_concat [Readable 0])
   \<and> sources (registered empty_concat [Readable 0]) = [Readable 0]"
proof -
  have a: "\<not> closed empty_concat" by (simp add: empty_simps)
  have b: "list_all isReadableStream [Readable 0]" by (simp add: isReadableStream_def)
  have c: "\<not> isArray Null" by simp
  have d: "\<not> isReadableStream Null" by (simp add: isReadableStream_def)
  have e: "sources empty_concat = []" by (simp add: empty_simps)
  show ?thesis
    using a b c d e add_batch_stops_at_invalid [OF a b c d, of "[Readable 1]"]
    by (simp del: add.simps)
qed

text \<open>
  The batch \<open>[undefined, r1]\<close> on a new stream: the call throws and \<open>r1\<close>, a stream
  that \<open>add\<close> accepts on its own, is not registered.
\<close>

theorem add_batch_counterexample:
  "fst (add empty_concat (Array [Undefined, Readable 1]))
     = Throw (Error ''Invalid readable stream'')
   \<and> Readable 1 \<notin> set (sources (snd (add empty_concat (Array [Undefined, Readable 1]))))
   \<and> add empty_concat (Readable 1)
       = (Return This, registered empty_concat [Readable 1])"
  by (simp add: empty_simps isReadableStream_def registered_def)

section \<open>The Closed flag and the Active Set through the calls\<close>

lemma add_closed_both:
  "closed (snd (add s v)) = closed s"
  "closed (snd (add_each s vs)) = closed s"
proof (induction s v and s vs rule: add_add_each.induct)
  case (1 s source)
  then show ?case
    by (cases source) (auto split: prod.splits outcome.splits)
next
  case (2 s)
  then show ?case by simp
next
  case (3 s item items)
  then show ?case
    by (cases "add s item") (auto split: outcome.splits simp del: add.simps)
qed

lemma add_sources_both:
  "\<exists>ys. sources (snd (add s v)) = sources s @ ys \<and> prefix ys (leaves v)
        \<and> (\<forall>r. fst (add s v) = Return r \<longrightarrow> ys = leaves v)"
  "\<exists>ys. sources (snd (add_each s vs)) = sources s @ ys
        \<and> prefix ys (concat (map leaves vs))
        \<and> (\<forall>r. fst (add_each s vs) = Return r \<longrightarrow> ys = concat (map leaves vs))"
proof (induction s v and s vs rule: add_add_each.induct)
  case (1 s source)
  show ?case
  proof (cases "closed s")
    case True
    then show ?thesis by simp
  next
    case False
    show ?thesis
    proof (cases source)
      case (Array items)
      with False 1 obtain ys where
        "sources (snd (add_each s items)) = sources s @ ys"
        "prefix ys (concat (map leaves items))"
        "\<forall>r. fst (add_each s items) = Return r \<longrightarrow> ys = concat (map leaves items)"
        by auto
      then show ?thesis
        using False Array by (cases "add_each s items") (auto split: outcome.splits)
    qed (use False in \<open>auto simp: isReadableStream_def\<close>)
  qed
next
  case (2 s)
  then show ?case by simp
next
  case (3 s item items)
  obtain ys where ys: "sources (snd (add s item)) = sources s @ ys" "prefix ys (leaves item)"
    "\<forall>r. fst (add s item) = Return r \<longrightarrow> ys = leaves item"
    using 3(1) by blast
  show ?case
  proof (cases "add s item")
    case (Pair r s')
    show ?thesis
    proof (cases r)
      case (Throw e)
      with Pair ys show ?thesis
        by (auto simp del: add.simps intro: prefix_prefix)
    next
      case (Return rv)
      from 3(2) [OF Pair [symmetric] Return] obtain zs where
        zs: "sources (snd (add_each s' items)) = sources s' @ zs"
            "prefix zs (concat (map leaves items))"
            "\<forall>r. fst (add_each s' items) = Return r \<longrightarrow> zs = concat (map leaves items)"
        by blast
      have full: "ys = leaves item" using ys(3) Pair Return by simp
      have s': "sources s' = sources s @ leaves item" using ys(1) Pair full by simp
      show ?thesis
        using Pair Return zs s' by (auto simp del: add.simps)
    qed
  qed
qed

lemma distinct_append_prefix:
  "prefix ys zs \<Longrightarrow> distinct (xs @ zs) \<Longrightarrow> distinct (xs @ ys)"
  by (auto simp: prefix_def)

lemma add_distinct:
  "distinct (sources s @ leaves v) \<Longrightarrow> distinct (sources (snd (add s v)))"
  using add_sources_both(1) [of s v] distinct_append_prefix by metis

lemma clear_fields:
  "closed (snd (clear s)) = closed s"
  "distinct (sources s) \<Longrightarrow> distinct (sources (snd (clear s)))"
  using remove_each_closed [of s "sources s"] remove_each_distinct [of s "sources s"]
  by (cases "remove_each s (sources s)"; cases "fst (remove_each s (sources s))";
      simp add: clear_def)+

lemma close_closed: "closed (snd (close s))"
  using clear_fields(1) [of "s\<lparr>closed := True\<rparr>"]
  by (cases "clear (s\<lparr>closed := True\<rparr>)"; cases "fst (clear (s\<lparr>closed := True\<rparr>))")
     (simp_all add: close_def)

lemma close_distinct: "distinct (sources s) \<Longrightarrow> distinct (sources (snd (close s)))"
  using clear_fields(2) [of "s\<lparr>closed := True\<rparr>"]
  by (cases "clear (s\<lparr>closed := True\<rparr>)"; cases "fst (clear (s\<lparr>closed := True\<rparr>))")
     (simp_all add: close_def)

lemma unpipe_closed: "closed (unpipe s v) = closed s"
  by (simp add: unpipe_def remove_closed)

lemma unpipe_sources: "\<exists>P. sources (unpipe s v) = filter P (sources s)"
proof (cases "has_unpipe v \<and> v \<in> set (piped s)")
  case True
  then have "sources (unpipe s v) = filter (\<lambda>item. item \<noteq> v) (sources s)"
    by (simp add: unpipe_def remove_cases removed_fields)
  then show ?thesis by blast
next
  case False
  then have "sources (unpipe s v) = filter (\<lambda>item. True) (sources s)"
    by (auto simp: unpipe_def)
  then show ?thesis by blast
qed

lemma foldl_unpipe_closed: "closed (foldl unpipe s vs) = closed s"
  by (induction vs arbitrary: s) (simp_all add: unpipe_closed)

lemma foldl_unpipe_sources: "\<exists>P. sources (foldl unpipe s vs) = filter P (sources s)"
proof (induction vs arbitrary: s)
  case Nil
  have "sources s = filter (\<lambda>item. True) (sources s)" by simp
  then show ?case by (simp only: foldl_Nil) blast
next
  case (Cons v vs)
  obtain P where P: "sources (unpipe s v) = filter P (sources s)"
    using unpipe_sources by blast
  obtain Q where Q: "sources (foldl unpipe (unpipe s v) vs) = filter Q (sources (unpipe s v))"
    using Cons.IH by blast
  have "sources (foldl unpipe s (v # vs)) = filter (\<lambda>item. P item \<and> Q item) (sources s)"
    using P Q by simp
  then show ?case by blast
qed

lemma emit_close_closed: "closed (emit_close s) = closed s"
  by (simp add: emit_close_def foldl_unpipe_closed)

lemma emit_close_sources: "\<exists>P. sources (emit_close s) = filter P (sources s)"
  using foldl_unpipe_sources [of "s\<lparr>events := events s @ [Close]\<rparr>" "piped s"]
  by (simp add: emit_close_def)

lemma run_task_closed: "closed (run_task s t) = closed s"
  by (cases t) (simp_all add: emit_close_closed)

lemma run_task_sources: "\<exists>P. sources (run_task s t) = filter P (sources s)"
proof (cases t)
  case (PipeTask v)
  then have "sources (run_task s t) = filter (\<lambda>item. True) (sources s)" by simp
  then show ?thesis by blast
next
  case CloseTask
  then show ?thesis
    using emit_close_sources [of "s\<lparr>paused := True\<rparr>"] by simp
qed

lemma foldl_run_task_closed: "closed (foldl run_task s ts) = closed s"
  by (induction ts arbitrary: s) (simp_all add: run_task_closed)

lemma foldl_run_task_sources: "\<exists>P. sources (foldl run_task s ts) = filter P (sources s)"
proof (induction ts arbitrary: s)
  case Nil
  have "sources s = filter (\<lambda>item. True) (sources s)" by simp
  then show ?case by (simp only: foldl_Nil) blast
next
  case (Cons t ts)
  obtain P where P: "sources (run_task s t) = filter P (sources s)"
    using run_task_sources by blast
  obtain Q where Q: "sources (foldl run_task (run_task s t) ts)
                     = filter Q (sources (run_task s t))"
    using Cons.IH by blast
  have "sources (foldl run_task s (t # ts)) = filter (\<lambda>item. P item \<and> Q item) (sources s)"
    using P Q by simp
  then show ?case by blast
qed

lemma turn_closed: "closed (turn s) = closed s"
  by (simp add: turn_def foldl_run_task_closed)

lemma turn_sources: "\<exists>P. sources (turn s) = filter P (sources s)"
  using foldl_run_task_sources [of "s\<lparr>immediates := []\<rparr>" "immediates s"]
  by (simp add: turn_def)

lemma turn_distinct: "distinct (sources s) \<Longrightarrow> distinct (sources (turn s))"
  using turn_sources [of s] by auto

lemma node_emit_end_fields:
  "closed (node_emit_end s) = closed s" "sources (node_emit_end s) = sources s"
  by (simp_all add: node_emit_end_def)

lemma node_destroy_closed: "closed (node_destroy s) = closed s"
  by (simp add: node_destroy_def emit_close_closed)

lemma node_destroy_sources: "\<exists>P. sources (node_destroy s) = filter P (sources s)"
proof (cases "destroyed s")
  case True
  then have "sources (node_destroy s) = filter (\<lambda>item. True) (sources s)"
    by (simp add: node_destroy_def)
  then show ?thesis by blast
next
  case False
  then show ?thesis
    using emit_close_sources [of "s\<lparr>destroyed := True, readable := False\<rparr>"]
    by (simp add: node_destroy_def)
qed

lemma exec_closed: "closed s \<Longrightarrow> closed (snd (exec s c))"
  by (cases c)
     (simp_all add: add_closed_both remove_closed clear_fields turn_closed close_def
       node_emit_end_fields node_destroy_closed del: add.simps)

lemma run_closed: "closed s \<Longrightarrow> closed (run s cs)"
  by (induction cs arbitrary: s) (simp_all add: exec_closed del: exec.simps)

subsection \<open>The claims on the Closed flag and on duplicates\<close>

text \<open>
  C5. After \<open>close()\<close> the field \<open>_closed\<close> is true and stays true through every further
  sequence of calls, turns of the event loop and steps of Node, and every \<open>add\<close> from then
  on throws
  \<open>Error('Stream is closed')\<close> and leaves the whole state, the Active Set included, as it
  was.
\<close>
theorem closed_is_permanent:
  "closed (snd (close s))
   \<and> closed (run (snd (close s)) cs)
   \<and> add (run (snd (close s)) cs) v
       = (Throw (Error ''Stream is closed''), run (snd (close s)) cs)"
proof -
  have "closed (run (snd (close s)) cs)"
    using close_closed by (rule run_closed)
  then show ?thesis using close_closed [of s] by simp
qed

theorem closed_is_permanent_witness:
  "closed (run (snd (close empty_concat)) [CallAdd (Readable 0), CallClear, NextTurn, CallClose])
   \<and> add (run (snd (close empty_concat)) [CallRemove (Readable 0), NextTurn]) (Readable 1)
       = (Throw (Error ''Stream is closed''),
          run (snd (close empty_concat)) [CallRemove (Readable 0), NextTurn])"
  using closed_is_permanent
          [of empty_concat "[CallAdd (Readable 0), CallClear, NextTurn, CallClose]"]
        closed_is_permanent
          [of empty_concat "[CallRemove (Readable 0), NextTurn]" "Readable 1"]
  by simp

text \<open>
  C4, as the code has it. \<open>add\<close> pushes without looking for the stream in \<open>_sources\<close>, so
  the invariant holds as long as no stream is added while it is a member: from an Active Set
  without duplicates, \<open>add\<close> of streams that are new and pairwise different, and every
  \<open>remove\<close>, \<open>clear\<close>, \<open>close\<close> and turn of the event loop, give an Active Set without
  duplicates.
\<close>
theorem distinct_sources_preserved:
  assumes "distinct (sources s)"
  shows "(distinct (sources s @ leaves v) \<longrightarrow> distinct (sources (snd (add s v))))
       \<and> (isReadableStream x \<and> x \<notin> set (sources s) \<longrightarrow> distinct (sources (snd (add s x))))
       \<and> distinct (sources (snd (remove s y)))
       \<and> distinct (sources (snd (clear s)))
       \<and> distinct (sources (snd (close s)))
       \<and> distinct (sources (turn s))"
proof -
  have "isReadableStream x \<Longrightarrow> leaves x = [x]"
    by (cases x) (simp_all add: isReadableStream_def)
  then have "isReadableStream x \<and> x \<notin> set (sources s) \<longrightarrow> distinct (sources (snd (add s x)))"
    using assms add_distinct [of s x] by simp
  moreover have "distinct (sources (snd (remove s y)))"
    using assms by (simp add: remove_cases removed_fields)
  ultimately show ?thesis
    using assms by (simp add: add_distinct clear_fields close_distinct turn_distinct del: add.simps)
qed


theorem distinct_sources_preserved_witness:
  "distinct (sources (registered empty_concat [Readable 0]))
   \<and> distinct (sources (registered empty_concat [Readable 0])
               @ leaves (Array [Readable 1, Array [Readable 2]]))
   \<and> isReadableStream (Readable 1)
   \<and> Readable 1 \<notin> set (sources (registered empty_concat [Readable 0]))
   \<and> distinct (sources (snd (add (registered empty_concat [Readable 0])
                                 (Array [Readable 1, Array [Readable 2]]))))
   \<and> distinct (sources (snd (add (registered empty_concat [Readable 0]) (Readable 1))))
   \<and> distinct (sources (snd (remove (registered empty_concat [Readable 0]) (Readable 0))))"
proof -
  let ?s = "registered empty_concat [Readable 0]"
  have a: "distinct (sources ?s)"
    by (simp add: registered_def empty_simps)
  have b: "distinct (sources ?s @ leaves (Array [Readable 1, Array [Readable 2]]))"
    by (simp add: registered_def empty_simps)
  have c: "isReadableStream (Readable 1)" by (simp add: isReadableStream_def)
  have d: "Readable 1 \<notin> set (sources ?s)"
    by (simp add: registered_def empty_simps)
  show ?thesis
    using a b c d
      distinct_sources_preserved [OF a, of "Array [Readable 1, Array [Readable 2]]"
        "Readable 1" "Readable 0"]
    by (simp del: add.simps)
qed

text \<open>
  Two calls \<open>add(r0)\<close> on a new stream: the Active Set holds \<open>r0\<close> twice.
\<close>

theorem add_twice_counterexample:
  "sources (snd (add (snd (add empty_concat (Readable 0))) (Readable 0)))
     = [Readable 0, Readable 0]
   \<and> \<not> distinct (sources (snd (add (snd (add empty_concat (Readable 0))) (Readable 0))))"
  by (simp add: empty_simps isReadableStream_def)

section \<open>The claim on streams that are not members\<close>

text \<open>
  C2, as the code has it. For a readable stream \<open>x\<close> that is not a member of the Active
  Set, \<open>remove(x)\<close> returns \<open>this\<close> and leaves the Active Set unchanged; when moreover \<open>x\<close>
  is not piped into the sink and the Active Set is not empty (or the sink has ended, or is no
  longer readable), the call changes nothing at all: no event fires.
\<close>
theorem remove_non_member:
  assumes "isReadableStream x" and "x \<notin> set (sources s)"
  shows "fst (remove s x) = Return This
       \<and> sources (snd (remove s x)) = sources s
       \<and> (x \<notin> set (piped s) \<and> (sources s \<noteq> [] \<or> ending s \<or> \<not> readable s)
            \<longrightarrow> remove s x = (Return This, s))"
proof -
  have u: "has_unpipe x" using assms(1) by (simp add: isReadableStream_iff)
  have f: "filter (\<lambda>item. item \<noteq> x) (sources s) = sources s"
    using assms(2) by (rule filter_neq_absent)
  have "removed s x = s"
    if "x \<notin> set (piped s)" and "sources s \<noteq> [] \<or> ending s \<or> \<not> readable s"
    using that f by (auto simp: removed_def Let_def filter_neq_absent sink_end_idem)
  then show ?thesis
    using u f by (simp add: remove_cases removed_fields)
qed

theorem remove_non_member_witness:
  "isReadableStream (Readable 1)
   \<and> Readable 1 \<notin> set (sources (registered empty_concat [Readable 0]))
   \<and> Readable 1 \<notin> set (piped (registered empty_concat [Readable 0]))
   \<and> sources (registered empty_concat [Readable 0]) \<noteq> []
   \<and> remove (registered empty_concat [Readable 0]) (Readable 1)
       = (Return This, registered empty_concat [Readable 0])"
proof -
  let ?s = "registered empty_concat [Readable 0]"
  have a: "isReadableStream (Readable 1)" by (simp add: isReadableStream_def)
  have b: "Readable 1 \<notin> set (sources ?s)"
    by (simp add: registered_def empty_simps)
  have c: "Readable 1 \<notin> set (piped ?s)"
    by (simp add: registered_def empty_simps)
  have d: "sources ?s \<noteq> []"
    by (simp add: registered_def empty_simps)
  show ?thesis
    using a b c d remove_non_member [OF a b] by simp
qed

text \<open>
  \<open>remove(r0)\<close> on a new stream, whose Active Set is empty: \<open>r0\<close> is not a member, and the
  call ends the sink (\<open>end()\<close> takes effect), so that Node emits \<open>'end'\<close> once the sink is
  read.
\<close>

theorem remove_non_member_counterexample:
  "Readable 0 \<notin> set (sources empty_concat)
   \<and> ending empty_concat = False
   \<and> ending (snd (remove empty_concat (Readable 0))) = True
   \<and> events (run empty_concat [CallRemove (Readable 0)]) = []
   \<and> events (run empty_concat [CallRemove (Readable 0), NodeEmitsEnd]) = [End]
   \<and> remove empty_concat (Readable 0) \<noteq> (Return This, empty_concat)"
  by (simp add: remove_cases removed_def sink_end_def node_emit_end_def empty_simps)

section \<open>The claims on close and on the constructor\<close>

lemma new_Concat_empty: "new_Concat Undefined Undefined = Inr empty_concat"
  by (simp add: new_Concat_def empty_concat_def defaultOptions_def get_prop_def
      isReadableStream_def)

text \<open>
  C1, on the code. \<open>new Concat()\<close> and \<open>new Concat([])\<close> give the stream with no sources.
  Its \<open>close()\<close> returns \<open>this\<close>, sets \<open>_closed\<close> and schedules the \<open>'close'\<close> callback,
  but \<open>clear()\<close> loops over an empty \<open>_sources\<close> and never reaches \<open>remove\<close>, the only
  place that calls \<open>this.end()\<close>: after the turn of the event loop the log holds \<open>Close\<close>
  alone, and the sink has not ended.
\<close>
theorem close_on_empty_emits_only_close:
  "new_Concat Undefined Undefined = Inr empty_concat
   \<and> new_Concat (Array []) Undefined = Inr empty_concat
   \<and> close empty_concat
       = (Return This, empty_concat\<lparr>closed := True, immediates := [CloseTask]\<rparr>)
   \<and> events (snd (close empty_concat)) = []
   \<and> events (turn (snd (close empty_concat))) = [Close]
   \<and> ending (turn (snd (close empty_concat))) = False"
  by (simp add: new_Concat_def empty_simps isReadableStream_def close_def clear_def
      turn_def emit_close_def)

text \<open>
  C6, on the code. The first \<open>close()\<close> returns \<open>this\<close>; a \<open>close()\<close> on the stream it
  leaves, which is closed, takes the bare \<open>return\<close> of the guard and yields \<open>undefined\<close>.
\<close>
theorem close_twice_returns_undefined:
  "fst (close empty_concat) = Return This
   \<and> closed (snd (close empty_concat))
   \<and> close (snd (close empty_concat)) = (Return RetUndefined, snd (close empty_concat))"
  by (simp add: empty_simps close_def clear_def)

text \<open>
  C9. Called without \<open>new\<close> and with one argument \<open>x\<close>, \<open>Concat\<close> passes on its second
  parameter only, which is \<open>undefined\<close>: whatever \<open>x\<close> is, the result is the stream of
  \<open>new Concat()\<close>, with an empty Active Set and the default options.
\<close>
theorem plain_call_discards_first_argument:
  "Concat False x Undefined = Inr empty_concat
   \<and> sources empty_concat = []
   \<and> options empty_concat = defaultOptions
   \<and> maxListeners empty_concat = 0"
  by (simp add: Concat_def new_Concat_empty) (simp add: empty_simps)

section \<open>The end of the sink\<close>

text \<open>
  No method of the source emits \<open>'end'\<close>: \<open>remove\<close> calls \<open>end()\<close>, and the event is
  Node's. Through every call and every step of Node the log holds one \<open>End\<close> if \<open>'end'\<close>
  has been emitted and none otherwise, so a stream emits \<open>'end'\<close> at most once, however
  often \<open>end()\<close> is called.
\<close>

lemma add_sink_both:
  "events (snd (add s v)) = events s \<and> end_emitted (snd (add s v)) = end_emitted s"
  "events (snd (add_each s vs)) = events s \<and> end_emitted (snd (add_each s vs)) = end_emitted s"
proof (induction s v and s vs rule: add_add_each.induct)
  case (1 s source)
  then show ?case
    by (cases source) (auto split: prod.splits outcome.splits)
next
  case (2 s)
  then show ?case by simp
next
  case (3 s item items)
  then show ?case
    by (cases "add s item") (auto split: outcome.splits simp del: add.simps)
qed

lemma add_end_logged: "end_logged (snd (add s v)) = end_logged s"
  by (simp add: end_logged_def add_sink_both del: add.simps)

lemma add_each_end_logged: "end_logged (snd (add_each s vs)) = end_logged s"
  by (simp add: end_logged_def add_sink_both del: add_each.simps)

lemma clear_end_logged: "end_logged (snd (clear s)) = end_logged s"
  using remove_each_end_logged [of s "sources s"]
  by (cases "remove_each s (sources s)"; cases "fst (remove_each s (sources s))")
     (simp_all add: clear_def)

lemma end_logged_update:
  "end_logged (s\<lparr>closed := b\<rparr>) = end_logged s"
  "end_logged (s\<lparr>immediates := ts\<rparr>) = end_logged s"
  "end_logged (s\<lparr>paused := b\<rparr>) = end_logged s"
  by (simp_all add: end_logged_def)

lemma close_end_logged: "end_logged (snd (close s)) = end_logged s"
proof -
  have "end_logged (snd (clear (s\<lparr>closed := True\<rparr>))) = end_logged s"
    by (simp add: clear_end_logged end_logged_update)
  then show ?thesis
    by (cases "clear (s\<lparr>closed := True\<rparr>)"; cases "fst (clear (s\<lparr>closed := True\<rparr>))")
       (simp_all add: close_def end_logged_update)
qed

lemma unpipe_end_logged: "end_logged (unpipe s v) = end_logged s"
  by (simp add: unpipe_def remove_end_logged) (simp add: end_logged_def)

lemma foldl_unpipe_end_logged: "end_logged (foldl unpipe s vs) = end_logged s"
  by (induction vs arbitrary: s) (simp_all add: unpipe_end_logged)

lemma emit_close_end_logged: "end_logged (emit_close s) = end_logged s"
  by (simp add: emit_close_def foldl_unpipe_end_logged) (simp add: end_logged_def)

lemma run_task_end_logged: "end_logged (run_task s t) = end_logged s"
  by (cases t) (simp_all add: emit_close_end_logged, simp_all add: end_logged_def)

lemma foldl_run_task_end_logged: "end_logged (foldl run_task s ts) = end_logged s"
  by (induction ts arbitrary: s) (simp_all add: run_task_end_logged)

lemma turn_end_logged: "end_logged (turn s) = end_logged s"
  by (simp add: turn_def foldl_run_task_end_logged) (simp add: end_logged_def)

lemma node_emit_end_end_logged: "end_logged s \<Longrightarrow> end_logged (node_emit_end s)"
  by (simp add: node_emit_end_def end_logged_def)

lemma node_destroy_end_logged: "end_logged (node_destroy s) = end_logged s"
  by (simp add: node_destroy_def emit_close_end_logged) (simp add: end_logged_def)

lemma exec_end_logged: "end_logged s \<Longrightarrow> end_logged (snd (exec s c))"
  by (cases c)
     (simp_all add: add_end_logged remove_end_logged clear_end_logged close_end_logged
       turn_end_logged node_emit_end_end_logged node_destroy_end_logged del: add.simps)

lemma run_end_logged: "end_logged s \<Longrightarrow> end_logged (run s cs)"
  by (induction cs arbitrary: s) (simp_all add: exec_end_logged del: exec.simps)

lemma PassThrough_init_end_logged: "end_logged (PassThrough_init opts n)"
  by (simp add: end_logged_def PassThrough_init_def)

lemma add_each_result_end_logged:
  "add_each s0 items = (r, s') \<Longrightarrow> end_logged s0 \<Longrightarrow> end_logged s'"
  using add_each_end_logged [of s0 items] by simp

lemma new_Concat_end_logged: "new_Concat a b = Inr c \<Longrightarrow> end_logged c"
  by (auto simp: new_Concat_def Let_def simp del: add.simps add_each.simps
      split: if_splits prod.splits jsval.splits outcome.splits
      intro: add_each_result_end_logged [OF _ PassThrough_init_end_logged])

lemma at_most_one_End:
  "new_Concat a b = Inr c \<Longrightarrow> count_list (events (run c cs)) End \<le> 1"
proof -
  assume "new_Concat a b = Inr c"
  then have "end_logged (run c cs)"
    by (intro run_end_logged new_Concat_end_logged)
  then show ?thesis by (simp add: end_logged_def split: if_splits)
qed

lemma removed_absent:
  "x \<notin> set (piped s) \<Longrightarrow> sources s = [] \<Longrightarrow> \<not> readable s \<or> ending s \<Longrightarrow> removed s x = s"
  by (auto simp: removed_def Let_def filter_neq_absent sink_end_idem)

subsection \<open>The members of the Active Set are readable streams\<close>

text \<open>
  The hypothesis of C8 on the members holds for every stream a constructor returns and after
  every sequence of calls, turns of the event loop and steps of Node.
\<close>

lemma add_members_both:
  "list_all isReadableStream (sources s) \<Longrightarrow> list_all isReadableStream (sources (snd (add s v)))"
  "list_all isReadableStream (sources s) \<Longrightarrow>
   list_all isReadableStream (sources (snd (add_each s vs)))"
proof (induction s v and s vs rule: add_add_each.induct)
  case (1 s source)
  then show ?case
    by (cases source) (auto split: prod.splits outcome.splits)
next
  case (2 s)
  then show ?case by simp
next
  case (3 s item items)
  then show ?case
    by (cases "add s item") (auto split: outcome.splits simp del: add.simps)
qed


lemma list_all_filter: "list_all P xs \<Longrightarrow> list_all P (filter Q xs)"
  by (induction xs) auto

lemma remove_members:
  "list_all isReadableStream (sources s) \<Longrightarrow>
   list_all isReadableStream (sources (snd (remove s x)))"
  by (simp add: remove_cases removed_fields list_all_filter)

lemma remove_each_members:
  "list_all isReadableStream (sources s) \<Longrightarrow>
   list_all isReadableStream (sources (snd (remove_each s xs)))"
proof (induction xs arbitrary: s)
  case Nil
  then show ?case by simp
next
  case (Cons x xs)
  from Cons.prems have "list_all isReadableStream (sources (removed s x))"
    by (simp add: removed_fields list_all_filter)
  then show ?case
    using Cons.IH [of "removed s x"] Cons.prems by (simp add: remove_cases)
qed

lemma clear_members:
  "list_all isReadableStream (sources s) \<Longrightarrow>
   list_all isReadableStream (sources (snd (clear s)))"
  using remove_each_members [of s "sources s"]
  by (cases "remove_each s (sources s)"; cases "fst (remove_each s (sources s))")
     (simp_all add: clear_def)

lemma close_members:
  "list_all isReadableStream (sources s) \<Longrightarrow>
   list_all isReadableStream (sources (snd (close s)))"
  using clear_members [of "s\<lparr>closed := True\<rparr>"]
  by (cases "clear (s\<lparr>closed := True\<rparr>)"; cases "fst (clear (s\<lparr>closed := True\<rparr>))")
     (simp_all add: close_def)

lemma turn_members:
  "list_all isReadableStream (sources s) \<Longrightarrow> list_all isReadableStream (sources (turn s))"
  using turn_sources [of s] by (auto simp: list_all_filter)

lemma node_destroy_members:
  "list_all isReadableStream (sources s) \<Longrightarrow>
   list_all isReadableStream (sources (node_destroy s))"
  using node_destroy_sources [of s] by (auto simp: list_all_filter)

lemma exec_members:
  "list_all isReadableStream (sources s) \<Longrightarrow>
   list_all isReadableStream (sources (snd (exec s c)))"
  by (cases c)
     (simp_all add: add_members_both remove_members clear_members close_members turn_members
       node_emit_end_fields node_destroy_members del: add.simps)

lemma run_members:
  "list_all isReadableStream (sources s) \<Longrightarrow> list_all isReadableStream (sources (run s cs))"
  by (induction cs arbitrary: s) (simp_all add: exec_members del: exec.simps)

lemma add_each_result_members:
  "add_each s0 items = (r, s') \<Longrightarrow> list_all isReadableStream (sources s0) \<Longrightarrow>
   list_all isReadableStream (sources s')"
  using add_members_both(2) [of s0 items] by simp

lemma PassThrough_init_members: "list_all isReadableStream (sources (PassThrough_init opts n))"
  by (simp add: PassThrough_init_def)

lemma new_Concat_members: "new_Concat a b = Inr c \<Longrightarrow> list_all isReadableStream (sources c)"
  by (auto simp: new_Concat_def Let_def simp del: add.simps add_each.simps
      split: if_splits prod.splits jsval.splits outcome.splits
      intro: add_each_result_members [OF _ PassThrough_init_members])

lemma members_reachable:
  "new_Concat a b = Inr c \<Longrightarrow> list_all isReadableStream (sources (run c cs))"
  by (rule run_members) (rule new_Concat_members)

subsection \<open>The claims on the end of the sink\<close>

text \<open>
  C7, as the code has it. Removing the last remaining member of the Active Set (every entry
  of \<open>_sources\<close> is the stream \<open>x\<close>) returns \<open>this\<close>, leaves the Active Set empty and calls
  \<open>end()\<close> on the sink exactly when the \<open>readable\<close> property of the sink is true: the sink
  is then ended (\<open>end()\<close> takes effect once), and a sink that is not readable is left as it
  is. \<open>remove\<close> itself emits no \<open>'end'\<close>. A second \<open>remove\<close> of the same, now absent,
  stream changes nothing. On a readable sink that has not emitted \<open>'end'\<close>, the removal
  followed by Node's delivery gives exactly one more \<open>'end'\<close>, also when both are repeated;
  and in every sequence of calls on a constructed stream \<open>'end'\<close> is emitted at most once.
\<close>

theorem remove_last_member_ends_sink:
  assumes "isReadableStream x" and "set (sources s) = {x}"
  shows "fst (remove s x) = Return This
       \<and> sources (snd (remove s x)) = []
       \<and> ending (snd (remove s x)) = (ending s \<or> readable s)
       \<and> count_list (events (snd (remove s x))) End = count_list (events s) End
       \<and> remove (snd (remove s x)) x = (Return This, snd (remove s x))
       \<and> (readable s \<and> \<not> end_emitted s \<and> \<not> destroyed s \<longrightarrow>
            count_list (events (run s [CallRemove x, NodeEmitsEnd, CallRemove x, NodeEmitsEnd]))
              End = count_list (events s) End + 1)
       \<and> (new_Concat a b = Inr c \<longrightarrow> count_list (events (run c cs)) End \<le> 1)"
proof -
  have u: "has_unpipe x" using assms(1) by (simp add: isReadableStream_iff)
  let ?s1 = "removed s x"
  have src: "sources ?s1 = []"
    using assms(2) by (auto simp: removed_fields filter_empty_conv)
  then have f: "filter (\<lambda>item. item \<noteq> x) (sources s) = []" by (simp add: removed_fields)
  have e1: "ending ?s1 = (ending s \<or> readable s)" using f by (simp add: removed_fields)
  have np: "x \<notin> set (piped ?s1)" by (simp add: removed_fields)
  have again: "removed ?s1 x = ?s1"
    using np src e1 by (intro removed_absent) (auto simp: removed_fields)
  have delta: "count_list (events (run s [CallRemove x, NodeEmitsEnd, CallRemove x, NodeEmitsEnd]))
                 End = count_list (events s) End + 1"
    if r: "readable s" and n: "\<not> end_emitted s" and d: "\<not> destroyed s"
  proof -
    let ?s2 = "?s1\<lparr>end_emitted := True, readable := False, events := events ?s1 @ [End]\<rparr>"
    have 2: "node_emit_end ?s1 = ?s2"
      using r n d e1 by (simp add: node_emit_end_def removed_fields)
    have "x \<notin> set (piped ?s2)" "sources ?s2 = []" "\<not> readable ?s2"
      using np src by simp_all
    then have 3: "removed ?s2 x = ?s2" by (intro removed_absent) simp_all
    have 4: "node_emit_end ?s2 = ?s2" by (simp add: node_emit_end_def)
    show ?thesis
      using u 2 3 4 by (simp add: remove_cases removed_count_End)
  qed
  show ?thesis
    using u src e1 again delta at_most_one_End [of a b c cs]
    by (simp add: remove_cases removed_count_End)
qed

theorem remove_last_member_ends_sink_witness:
  "isReadableStream (Readable 0)
   \<and> set (sources (registered empty_concat [Readable 0])) = {Readable 0}
   \<and> readable (registered empty_concat [Readable 0])
   \<and> \<not> end_emitted (registered empty_concat [Readable 0])
   \<and> \<not> destroyed (registered empty_concat [Readable 0])
   \<and> new_Concat (Readable 0) Undefined = Inr (registered empty_concat [Readable 0])
   \<and> ending (snd (remove (registered empty_concat [Readable 0]) (Readable 0)))
   \<and> events (snd (remove (registered empty_concat [Readable 0]) (Readable 0))) = []
   \<and> count_list (events (run (registered empty_concat [Readable 0])
        [CallRemove (Readable 0), NodeEmitsEnd, CallRemove (Readable 0), NodeEmitsEnd])) End = 1"
proof -
  let ?s = "registered empty_concat [Readable 0]"
  have a: "isReadableStream (Readable 0)" by (simp add: isReadableStream_def)
  have b: "set (sources ?s) = {Readable 0}" by (simp add: registered_def empty_simps)
  have c: "readable ?s \<and> \<not> end_emitted ?s \<and> \<not> destroyed ?s \<and> \<not> ending ?s"
    by (simp add: registered_def empty_simps)
  have d: "new_Concat (Readable 0) Undefined = Inr ?s"
    by (simp add: new_Concat_def registered_def empty_simps isReadableStream_def)
  have e: "events ?s = []" by (simp add: registered_def empty_simps)
  have f: "events (snd (remove ?s (Readable 0))) = []"
    by (simp add: remove_cases removed_events registered_def empty_simps)
  show ?thesis
    using a b c d e f remove_last_member_ends_sink [OF a b, of "Readable 0" Undefined ?s]
    by simp
qed

text \<open>
  A stream constructed with the option \<open>readable: false\<close> and one source: removing the
  source, its last member, does not call \<open>end()\<close>, and Node has no \<open>'end'\<close> to emit.
\<close>

theorem remove_last_member_counterexample:
  "new_Concat (Readable 0) (Object [(K_readable, Boolean False)])
     = Inr (registered (PassThrough_init
              [(K_readable, Boolean False), (K_objectMode, Boolean True)] 0) [Readable 0])
   \<and> set (sources (registered (PassThrough_init
              [(K_readable, Boolean False), (K_objectMode, Boolean True)] 0) [Readable 0]))
       = {Readable 0}
   \<and> ending (run (registered (PassThrough_init
              [(K_readable, Boolean False), (K_objectMode, Boolean True)] 0) [Readable 0])
          [CallRemove (Readable 0), NodeEmitsEnd]) = False
   \<and> events (run (registered (PassThrough_init
              [(K_readable, Boolean False), (K_objectMode, Boolean True)] 0) [Readable 0])
          [CallRemove (Readable 0), NodeEmitsEnd]) = []"
  by (simp add: new_Concat_def registered_def PassThrough_init_def defaultOptions_def
      get_prop_def isReadableStream_def remove_cases removed_def node_emit_end_def)

text \<open>
  C8, as the code has it. On a non-empty Active Set \<open>clear()\<close> returns \<open>this\<close> and removes
  every member, although \<open>remove\<close> replaces \<open>_sources\<close> while the loop runs, and it calls
  \<open>end()\<close> on the sink exactly when the \<open>readable\<close> property of the sink is true: the sink
  is then ended (\<open>end()\<close> takes effect once), and a sink that is not readable is left as it
  is. \<open>clear\<close> itself emits no \<open>'end'\<close>. On a readable sink that has not emitted \<open>'end'\<close>,
  \<open>clear()\<close> followed by Node's delivery gives exactly one more \<open>'end'\<close>, also when both are
  repeated.
\<close>

theorem clear_nonempty_ends_sink:
  assumes "sources s \<noteq> []" and "list_all isReadableStream (sources s)"
  shows "fst (clear s) = Return This
       \<and> sources (snd (clear s)) = []
       \<and> ending (snd (clear s)) = (ending s \<or> readable s)
       \<and> count_list (events (snd (clear s))) End = count_list (events s) End
       \<and> (readable s \<and> \<not> end_emitted s \<and> \<not> destroyed s \<longrightarrow>
            count_list (events (run s [CallClear, NodeEmitsEnd, CallClear, NodeEmitsEnd])) End
              = count_list (events s) End + 1)"
proof -
  have u: "list_all has_unpipe (sources s)"
    using assms(2) by (simp add: isReadableStream_iff [abs_def])
  let ?r = "remove_each s (sources s)"
  let ?s1 = "snd ?r"
  have r: "fst ?r = Return RetUndefined" using u by (rule remove_each_returns)
  have cl: "clear s = (Return This, ?s1)"
    using r by (cases ?r) (simp add: clear_def)
  have src: "sources ?s1 = []"
    by (simp add: remove_each_sources [OF u])
  have en: "ending ?s1 = (ending s \<or> readable s)"
    using u assms(1) by (rule remove_each_ending) simp
  have ev: "count_list (events ?s1) End = count_list (events s) End"
    by (rule remove_each_count_End)
  have delta: "count_list (events (run s [CallClear, NodeEmitsEnd, CallClear, NodeEmitsEnd])) End
                 = count_list (events s) End + 1"
    if rd: "readable s" and n: "\<not> end_emitted s" and d: "\<not> destroyed s"
  proof -
    have n1: "\<not> end_emitted ?s1" "\<not> destroyed ?s1"
      using n d by (simp_all add: remove_each_end_emitted remove_each_destroyed)
    let ?s2 = "?s1\<lparr>end_emitted := True, readable := False, events := events ?s1 @ [End]\<rparr>"
    have 2: "node_emit_end ?s1 = ?s2"
      using rd n1 en by (simp add: node_emit_end_def)
    have 3: "clear ?s2 = (Return This, ?s2)"
      using src by (simp add: clear_def)
    have 4: "node_emit_end ?s2 = ?s2" by (simp add: node_emit_end_def)
    show ?thesis
      using cl 2 3 4 ev by simp
  qed
  show ?thesis using cl src en ev delta by simp
qed

theorem clear_nonempty_ends_sink_witness:
  "sources (registered empty_concat [Readable 0, Readable 1]) \<noteq> []
   \<and> list_all isReadableStream (sources (registered empty_concat [Readable 0, Readable 1]))
   \<and> readable (registered empty_concat [Readable 0, Readable 1])
   \<and> \<not> end_emitted (registered empty_concat [Readable 0, Readable 1])
   \<and> \<not> destroyed (registered empty_concat [Readable 0, Readable 1])
   \<and> sources (snd (clear (registered empty_concat [Readable 0, Readable 1]))) = []
   \<and> ending (snd (clear (registered empty_concat [Readable 0, Readable 1])))
   \<and> count_list (events (run (registered empty_concat [Readable 0, Readable 1])
        [CallClear, NodeEmitsEnd, CallClear, NodeEmitsEnd])) End = 1"
proof -
  let ?s = "registered empty_concat [Readable 0, Readable 1]"
  have a: "sources ?s \<noteq> []" by (simp add: registered_def empty_simps)
  have b: "list_all isReadableStream (sources ?s)"
    by (simp add: registered_def empty_simps isReadableStream_def)
  have c: "readable ?s \<and> \<not> end_emitted ?s \<and> \<not> destroyed ?s \<and> \<not> ending ?s"
    by (simp add: registered_def empty_simps)
  have e: "events ?s = []" by (simp add: registered_def empty_simps)
  show ?thesis
    using a b c e clear_nonempty_ends_sink [OF a b] by simp
qed

text \<open>
  A stream constructed with the option \<open>readable: false\<close> and two sources: \<open>clear()\<close>
  empties the Active Set without calling \<open>end()\<close>, and Node has no \<open>'end'\<close> to emit.
\<close>

theorem clear_nonempty_counterexample:
  "new_Concat (Array [Readable 0, Readable 1]) (Object [(K_readable, Boolean False)])
     = Inr (registered (PassThrough_init
              [(K_readable, Boolean False), (K_objectMode, Boolean True)] 0)
              [Readable 0, Readable 1])
   \<and> sources (run (registered (PassThrough_init
              [(K_readable, Boolean False), (K_objectMode, Boolean True)] 0)
              [Readable 0, Readable 1]) [CallClear, NodeEmitsEnd]) = []
   \<and> ending (run (registered (PassThrough_init
              [(K_readable, Boolean False), (K_objectMode, Boolean True)] 0)
              [Readable 0, Readable 1]) [CallClear, NodeEmitsEnd]) = False
   \<and> events (run (registered (PassThrough_init
              [(K_readable, Boolean False), (K_objectMode, Boolean True)] 0)
              [Readable 0, Readable 1]) [CallClear, NodeEmitsEnd]) = []"
  by (simp add: new_Concat_def registered_def PassThrough_init_def defaultOptions_def
      get_prop_def isReadableStream_def clear_def remove_cases removed_def node_emit_end_def)

end
